theory Spec2Isabelle
  imports Main "HOL-Library.Word" "HOL-Library.Monad_Syntax"
begin

unbundle bit_operations_syntax

section \<open>The RHT03 driver (therm.c) as functions\<close>

subsection \<open>Constants and data\<close>

text \<open>
  \<^verbatim>\<open>#define BIT_TRANSITIONS 40 + 2\<close> and \<^verbatim>\<open>#define LONG_PULSE_LENGTH 28\<close>.
  The first macro is only used in \<^verbatim>\<open>counter < BIT_TRANSITIONS\<close>, where the
  textual expansion \<^verbatim>\<open>counter < 40 + 2\<close> compares with 42.
\<close>

definition BIT_TRANSITIONS :: nat where
  "BIT_TRANSITIONS = 40 + 2"

definition LONG_PULSE_LENGTH :: "8 word" where
  "LONG_PULSE_LENGTH = 28"

text \<open>
  The sensor line is the environment: \<open>ln t\<close> is the level that the \<open>t\<close>-th call of
  \<^verbatim>\<open>read_pin\<close> sees (\<^verbatim>\<open>PINB & (1 << THERM)\<close>). Every call of \<^verbatim>\<open>read_pin\<close>
  advances the poll counter by one.
\<close>

type_synonym line = "nat \<Rightarrow> bool"

definition read_pin :: "line \<Rightarrow> nat \<Rightarrow> 8 word" where
  "read_pin ln t = (if ln t then 1 else 0)"


record globals =
  polls :: nat
  tries_b :: "nat \<Rightarrow> 8 word"
  try_count :: "8 word"
  tries_b_log :: "nat list"

text \<open>
  The locals of \<^verbatim>\<open>read_therm\<close> that live in memory: \<^verbatim>\<open>uint8_t bits[5]\<close>, again as a
  region indexed by offset (cells \<open>i < 5\<close> are the array), and the history of the
  offsets stored to by line 129, most recent first.
\<close>

definition bits_size :: nat where
  "bits_size = 5"

record frame =
  bits :: "nat \<Rightarrow> 8 word"
  bits_log :: "nat list"

record RHTresult =
  temperature :: "16 word"
  humidity :: "16 word"
  checksum :: "8 word"

subsection \<open>\<^verbatim>\<open>next_bit\<close>\<close>

text \<open>
  Line 87, \<^verbatim>\<open>while(read_pin() == 0) { }\<close>: the loop has no bound, so it is a partial
  function; \<open>None\<close> is the loop that never exits. The result is the poll counter
  after the read that saw the line high.
\<close>

partial_function (option) wait_low :: "line \<Rightarrow> nat \<Rightarrow> nat option" where
  "wait_low ln t = (if read_pin ln t = 0 then wait_low ln (Suc t) else Some (Suc t))"

declare wait_low.simps [code]

text \<open>
  Lines 90-94, \<^verbatim>\<open>while(read_pin() == 1) { if(tries++ == 255) break; }\<close>.
  \<^verbatim>\<open>tries\<close> is a \<^verbatim>\<open>uint8_t\<close>: the post-increment compares the old value with 255
  and stores the old value plus one, modulo 256, also when the comparison holds.
\<close>

function count_high :: "line \<Rightarrow> nat \<Rightarrow> 8 word \<Rightarrow> 8 word \<times> nat" where
  "count_high ln t tries =
     (if read_pin ln t = 1
      then (if tries = 255 then (tries + 1, Suc t)
            else count_high ln (Suc t) (tries + 1))
      else (tries, Suc t))"
  by pat_completeness auto
termination
proof (relation "measure (\<lambda>(ln, t, tries). 255 - unat tries)")
  show "wf (measure (\<lambda>(ln :: line, t :: nat, tries :: 8 word). 255 - unat tries))"
    by simp
next
  fix ln :: line and t :: nat and tries :: "8 word"
  assume ne: "tries \<noteq> 255"
  have lt: "unat tries < 256"
    using unsigned_less [of tries, where 'a = nat] by simp
  moreover have "unat tries \<noteq> 255"
    using ne by (simp add: word_unat_eq_iff)
  moreover have "unat (tries + 1) = (unat tries + 1) mod 256"
    by (simp add: unat_word_ariths)
  ultimately show "((ln, Suc t, tries + 1), (ln, t, tries))
      \<in> measure (\<lambda>(ln, t, tries). 255 - unat tries)"
    by simp
qed

declare count_high.simps [simp del]

text \<open>Lines 84-94: the sample is the final value of \<^verbatim>\<open>tries\<close>.\<close>

definition sample_pulse :: "line \<Rightarrow> nat \<Rightarrow> (8 word \<times> nat) option" where
  "sample_pulse ln t = do { t1 \<leftarrow> wait_low ln t; Some (count_high ln t1 0) }"

text \<open>Line 96: \<^verbatim>\<open>(tries > LONG_PULSE_LENGTH) ? 1 : 0\<close>.\<close>

definition classify :: "8 word \<Rightarrow> 8 word" where
  "classify tries = (if tries > LONG_PULSE_LENGTH then 1 else 0)"

text \<open>
  \<^verbatim>\<open>next_bit\<close>: the new \<^verbatim>\<open>*state\<close> is returned; lines 99-100 store the sample at
  \<^verbatim>\<open>tries_b[try_count]\<close> and increment \<^verbatim>\<open>try_count\<close> (a \<^verbatim>\<open>uint8_t\<close>).
\<close>

definition next_bit :: "line \<Rightarrow> globals \<Rightarrow> (8 word \<times> globals) option" where
  "next_bit ln g = do {
     (tries, t) \<leftarrow> sample_pulse ln (polls g);
     Some (classify tries,
       g\<lparr>polls := t,
         tries_b := (tries_b g)(unat (try_count g) := tries),
         tries_b_log := unat (try_count g) # tries_b_log g,
         try_count := try_count g + 1\<rparr>) }"


subsection \<open>\<^verbatim>\<open>read_therm\<close>\<close>

text \<open>
  Lines 128-129 of the loop body: \<^verbatim>\<open>bucket = counter >> 3\<close> and
  \<^verbatim>\<open>bits[bucket] = (bits[bucket] << 1) | state\<close>. The shift and the or are
  computed in \<^verbatim>\<open>int\<close> and the store truncates to 8 bits, which is the shift of
  the 8-bit word.
\<close>

definition put_bit :: "nat \<Rightarrow> 8 word \<Rightarrow> frame \<Rightarrow> frame" where
  "put_bit counter state fr =
     (let bucket = drop_bit 3 counter
      in fr\<lparr>bits := (bits fr)(bucket := push_bit 1 (bits fr bucket) OR state),
            bits_log := bucket # bits_log fr\<rparr>)"

text \<open>
  Lines 126-130:
  \<^verbatim>\<open>for(int counter=0; counter < BIT_TRANSITIONS; counter++) { next_bit(&state); ... }\<close>.
\<close>

function scan :: "line \<Rightarrow> nat \<Rightarrow> frame \<Rightarrow> globals \<Rightarrow> (frame \<times> globals) option" where
  "scan ln counter fr g =
     (if counter < BIT_TRANSITIONS
      then do {
        (state, g') \<leftarrow> next_bit ln g;
        scan ln (counter + 1) (put_bit counter state fr) g' }
      else Some (fr, g))"
  by pat_completeness auto
termination
  by (relation "measure (\<lambda>(ln, counter, fr, g). BIT_TRANSITIONS - counter)") auto

declare scan.simps [simp del]

text \<open>
  Lines 132-134. The operands are promoted to \<^verbatim>\<open>int\<close> before \<^verbatim>\<open><<\<close>, \<^verbatim>\<open>|\<close>,
  \<^verbatim>\<open>+\<close> and \<^verbatim>\<open>==\<close>. The two 16-bit fields keep the low 16 bits of
  \<^verbatim>\<open>(bits[0] << 8) | bits[1]\<close>. The sum of four bytes is at most 1020, so it
  does not overflow an \<^verbatim>\<open>int\<close> of 16 bits or more, and it is compared with
  \<^verbatim>\<open>bits[4]\<close> as an integer.
\<close>

definition fill_result :: "(nat \<Rightarrow> 8 word) \<Rightarrow> RHTresult" where
  "fill_result b =
     \<lparr>temperature = push_bit 8 (ucast (b 2)) OR ucast (b 3),
      humidity = push_bit 8 (ucast (b 0)) OR ucast (b 1),
      checksum = (if uint (b 0) + uint (b 1) + uint (b 2) + uint (b 3) = uint (b 4)
                  then 1 else 0)\<rparr>"

text \<open>
  \<^verbatim>\<open>read_therm\<close>, from the switch to input mode on. \<open>stack\<close> is the content of
  the memory around \<^verbatim>\<open>bits\<close> on entry; the initialiser \<^verbatim>\<open>{ 0, 0, 0, 0, 0 }\<close>
  clears the five cells of the array. The function returns the result written
  through \<^verbatim>\<open>result\<close>, the frame as it is on return, and the globals.
\<close>

definition bits_init :: "(nat \<Rightarrow> 8 word) \<Rightarrow> frame" where
  "bits_init stack = \<lparr>bits = (\<lambda>i. if i < bits_size then 0 else stack i), bits_log = []\<rparr>"

definition read_therm ::
    "line \<Rightarrow> (nat \<Rightarrow> 8 word) \<Rightarrow> globals \<Rightarrow> (RHTresult \<times> frame \<times> globals) option" where
  "read_therm ln stack g = do {
     (state1, g1) \<leftarrow> next_bit ln g;
     (state2, g2) \<leftarrow> next_bit ln g1;
     (fr, g3) \<leftarrow> scan ln 0 (bits_init stack) g2;
     Some (fill_result (bits fr), fr, g3) }"

subsection \<open>The debug globals under a memory layout\<close>

text \<open>
  Lines 37-38 declare \<^verbatim>\<open>tries_b\<close> and \<^verbatim>\<open>try_count\<close> one after the other, and where the
  linker puts them decides what a store past the end of \<^verbatim>\<open>tries_b\<close> does. A layout is
  the offset of \<^verbatim>\<open>try_count\<close> from the first cell of \<^verbatim>\<open>tries_b\<close>: \<open>Some k\<close> when
  \<^verbatim>\<open>try_count\<close> is the byte at \<^verbatim>\<open>tries_b + k\<close> (\<open>Some 43\<close> when it follows the array
  directly), \<open>None\<close> when no index reaches it. In a layout that the declarations allow
  \<^verbatim>\<open>try_count\<close> is not a cell of the array.
\<close>

type_synonym layout = "nat option"


text \<open>
  Lines 99-100, \<^verbatim>\<open>tries_b[try_count] = tries; try_count++;\<close>, executed in this order:
  the store goes to the byte at offset \<^verbatim>\<open>try_count\<close>; when that byte is \<^verbatim>\<open>try_count\<close>
  itself, the increment starts from the sample just stored. \<open>tries_b g i\<close> is the byte
  at \<^verbatim>\<open>tries_b + i\<close>, so it follows \<^verbatim>\<open>try_count\<close> at the offset of the layout.
\<close>

definition record_sample :: "layout \<Rightarrow> 8 word \<Rightarrow> globals \<Rightarrow> globals" where
  "record_sample lay tries g =
     (let i = unat (try_count g);
          stored = (tries_b g)(i := tries);
          tc = (if lay = Some i then tries else try_count g) + 1
      in g\<lparr>tries_b := (case lay of None \<Rightarrow> stored | Some k \<Rightarrow> stored(k := tc)),
           tries_b_log := i # tries_b_log g,
           try_count := tc\<rparr>)"

text \<open>\<^verbatim>\<open>next_bit\<close>, the loop of lines 126-130 and \<^verbatim>\<open>read_therm\<close> under a layout.\<close>

definition next_bit_at :: "layout \<Rightarrow> line \<Rightarrow> globals \<Rightarrow> (8 word \<times> globals) option" where
  "next_bit_at lay ln g = do {
     (tries, t) \<leftarrow> sample_pulse ln (polls g);
     Some (classify tries, record_sample lay tries (g\<lparr>polls := t\<rparr>)) }"

function scan_at ::
    "layout \<Rightarrow> line \<Rightarrow> nat \<Rightarrow> frame \<Rightarrow> globals \<Rightarrow> (frame \<times> globals) option" where
  "scan_at lay ln counter fr g =
     (if counter < BIT_TRANSITIONS
      then do {
        (state, g') \<leftarrow> next_bit_at lay ln g;
        scan_at lay ln (counter + 1) (put_bit counter state fr) g' }
      else Some (fr, g))"
  by pat_completeness auto
termination
  by (relation "measure (\<lambda>(lay, ln, counter, fr, g). BIT_TRANSITIONS - counter)") auto

declare scan_at.simps [simp del]

definition read_therm_at ::
    "layout \<Rightarrow> line \<Rightarrow> (nat \<Rightarrow> 8 word) \<Rightarrow> globals
      \<Rightarrow> (RHTresult \<times> frame \<times> globals) option" where
  "read_therm_at lay ln stack g = do {
     (state1, g1) \<leftarrow> next_bit_at lay ln g;
     (state2, g2) \<leftarrow> next_bit_at lay ln g1;
     (fr, g3) \<leftarrow> scan_at lay ln 0 (bits_init stack) g2;
     Some (fill_result (bits fr), fr, g3) }"

subsection \<open>Notions used in the statements\<close>

text \<open>
  The values of \<^verbatim>\<open>state\<close> that \<open>n\<close> successive calls of \<^verbatim>\<open>next_bit\<close> return, in
  the order of the calls.
\<close>

fun next_bits :: "nat \<Rightarrow> line \<Rightarrow> globals \<Rightarrow> (8 word list \<times> globals) option" where
  "next_bits 0 ln g = Some ([], g)"
| "next_bits (Suc n) ln g = do {
     (state, g') \<leftarrow> next_bit ln g;
     (states, g'') \<leftarrow> next_bits n ln g';
     Some (state # states, g'') }"

text \<open>
  Lines 128-129 applied to a given list of bits, for the values \<open>c\<close>, \<open>c + 1\<close>, ...
  of \<^verbatim>\<open>counter\<close>: the loop of lines 126-130 without the sampling.
\<close>

fun assemble :: "nat \<Rightarrow> 8 word list \<Rightarrow> frame \<Rightarrow> frame" where
  "assemble c [] fr = fr"
| "assemble c (b # bs) fr = assemble (Suc c) bs (put_bit c b fr)"

text \<open>
  A synthetic line: pulses of the given widths (in polls, high), each followed by one
  low poll; after the last pulse the line stays high, as the released bus does with
  its pull-up.
\<close>

fun pulse_train :: "nat list \<Rightarrow> line" where
  "pulse_train [] n = True"
| "pulse_train (w # ws) n =
     (if n < w then True else if n = w then False else pulse_train ws (n - Suc w))"

text \<open>The globals after program start: \<^verbatim>\<open>try_count = 0\<close>, \<^verbatim>\<open>tries_b\<close> zeroed.\<close>

definition globals_init :: globals where
  "globals_init = \<lparr>polls = 0, tries_b = (\<lambda>_. 0), try_count = 0, tries_b_log = []\<rparr>"

text \<open>
  \<open>follows ln t ws\<close>: from poll \<open>t\<close> on, the line \<open>ln\<close> is the pulse train \<open>ws\<close>.
\<close>

definition follows :: "line \<Rightarrow> nat \<Rightarrow> nat list \<Rightarrow> bool" where
  "follows ln t ws = (\<forall>k. ln (t + k) = pulse_train ws k)"

text \<open>
  Two transactions as the sensor sends them, as pulse widths: the host's release and
  the sensor's response (the preamble), then 40 data pulses, most significant bit
  first, a short pulse (10 polls) for 0 and a long one (40 polls) for 1. The bytes of
  \<open>frame_match\<close> are 0x01, 0x90, 0x00, 0xC8, 0x59 (the last is the sum of the first
  four modulo 256); those of \<open>frame_mismatch\<close> are 0x02, 0x8C, 0x01, 0x01, 0x8F.
\<close>

definition frame_match :: "nat list" where
  "frame_match =
    [10, 40,
     10, 10, 10, 10, 10, 10, 10, 40,
     40, 10, 10, 40, 10, 10, 10, 10,
     10, 10, 10, 10, 10, 10, 10, 10,
     40, 40, 10, 10, 40, 10, 10, 10,
     10, 40, 10, 40, 40, 10, 10, 40]"

definition frame_mismatch :: "nat list" where
  "frame_mismatch =
    [10, 40,
     10, 10, 10, 10, 10, 10, 40, 10,
     40, 10, 10, 10, 40, 40, 10, 10,
     10, 10, 10, 10, 10, 10, 10, 40,
     10, 10, 10, 10, 10, 10, 10, 40,
     40, 10, 10, 10, 40, 40, 40, 40]"


section \<open>Properties\<close>

subsection \<open>The two waits of the sampler\<close>

lemma wait_low_high: "ln t \<Longrightarrow> wait_low ln t = Some (Suc t)"
  by (subst wait_low.simps) (simp add: read_pin_def)

lemma wait_low_low: "\<not> ln t \<Longrightarrow> wait_low ln t = wait_low ln (Suc t)"
  by (subst wait_low.simps) (simp add: read_pin_def)

lemma wait_low_first_high:
  "ln (t + k) \<Longrightarrow> (\<forall>j<k. \<not> ln (t + j)) \<Longrightarrow> wait_low ln t = Some (Suc (t + k))"
proof (induction k arbitrary: t)
  case 0
  then show ?case by (simp add: wait_low_high)
next
  case (Suc k)
  have low: "\<not> ln t" using Suc.prems(2) by (metis add.right_neutral zero_less_Suc)
  have "wait_low ln (Suc t) = Some (Suc (Suc t + k))"
  proof (rule Suc.IH)
    show "ln (Suc t + k)" using Suc.prems(1) by simp
    show "\<forall>j<k. \<not> ln (Suc t + j)"
    proof (intro allI impI)
      fix j assume "j < k"
      then have "\<not> ln (t + Suc j)" using Suc.prems(2) by (meson Suc_less_eq)
      then show "\<not> ln (Suc t + j)" by simp
    qed
  qed
  then show ?case using low by (simp add: wait_low_low)
qed

lemma wait_low_Some_high:
  assumes "wait_low ln t = Some t'"
  shows "\<exists>k. ln (t + k) \<and> t' = Suc (t + k)"
proof (rule wait_low.raw_induct
    [where P = "\<lambda>ln t t'. \<exists>k. ln (t + k) \<and> t' = Suc (t + k)", OF _ assms])
  fix f :: "line \<Rightarrow> nat \<Rightarrow> nat option" and ln t t'
  assume IH: "\<And>ln t t'. f ln t = Some t' \<Longrightarrow> \<exists>k. ln (t + k) \<and> t' = Suc (t + k)"
    and eq: "(if read_pin ln t = 0 then f ln (Suc t) else Some (Suc t)) = Some t'"
  show "\<exists>k. ln (t + k) \<and> t' = Suc (t + k)"
  proof (cases "ln t")
    case True
    then have "t' = Suc t" using eq by (simp add: read_pin_def)
    then have "ln (t + 0) \<and> t' = Suc (t + 0)" using True by simp
    then show ?thesis by blast
  next
    case False
    then have "f ln (Suc t) = Some t'" using eq by (simp add: read_pin_def)
    then obtain k where "ln (Suc t + k)" "t' = Suc (Suc t + k)" using IH by blast
    then have "ln (t + Suc k) \<and> t' = Suc (t + Suc k)" by simp
    then show ?thesis by blast
  qed
qed

lemma wait_low_returns: "(\<exists>t'. wait_low ln t = Some t') = (\<exists>k. ln (t + k))"
proof
  assume "\<exists>t'. wait_low ln t = Some t'"
  then show "\<exists>k. ln (t + k)" using wait_low_Some_high by blast
next
  assume "\<exists>k. ln (t + k)"
  define m where "m = (LEAST k. ln (t + k))"
  have "ln (t + m)" unfolding m_def using \<open>\<exists>k. ln (t + k)\<close> by (metis LeastI)
  moreover have "\<forall>j<m. \<not> ln (t + j)" unfolding m_def using not_less_Least by blast
  ultimately show "\<exists>t'. wait_low ln t = Some t'" using wait_low_first_high by blast
qed

lemma unat_lt_256: "unat (w :: 8 word) < 256"
  using unsigned_less [of w, where 'a = nat] by simp

lemma unat_inc: "tries \<noteq> 255 \<Longrightarrow> unat (tries + 1 :: 8 word) = Suc (unat tries)"
proof -
  assume ne: "tries \<noteq> 255"
  have "unat tries \<noteq> 255" using ne by (simp add: word_unat_eq_iff)
  then show ?thesis using unat_lt_256 [of tries] by (simp add: unat_word_ariths)
qed

lemma count_high_polls: "snd (count_high ln t tries) \<le> t + (256 - unat tries)"
proof (induction ln t tries rule: count_high.induct)
  case (1 ln t tries)
  show ?case
  proof (cases "read_pin ln t = 1 \<and> tries \<noteq> 255")
    case True
    then have "count_high ln t tries = count_high ln (Suc t) (tries + 1)"
      by (subst count_high.simps) simp
    moreover have "snd (count_high ln (Suc t) (tries + 1)) \<le> Suc t + (256 - unat (tries + 1))"
      using True 1 by simp
    ultimately show ?thesis using True unat_lt_256 [of tries] by (simp add: unat_inc)
  next
    case False
    then show ?thesis using unat_lt_256 [of tries]
      by (subst count_high.simps) auto
  qed
qed

lemma count_high_pulse:
  "unat tries + h \<le> 255 \<Longrightarrow> (\<forall>k<h. ln (t + k)) \<Longrightarrow> \<not> ln (t + h)
   \<Longrightarrow> count_high ln t tries = (tries + of_nat h, Suc (t + h))"
proof (induction h arbitrary: t tries)
  case 0
  then show ?case by (subst count_high.simps) (simp add: read_pin_def)
next
  case (Suc h)
  have hi: "ln t" using Suc.prems(2) by (metis add.right_neutral zero_less_Suc)
  have ne: "tries \<noteq> 255" using Suc.prems(1) by auto
  have step: "count_high ln t tries = count_high ln (Suc t) (tries + 1)"
    using hi ne by (subst count_high.simps) (simp add: read_pin_def)
  have "count_high ln (Suc t) (tries + 1) = (tries + 1 + of_nat h, Suc (Suc t + h))"
  proof (rule Suc.IH)
    show "unat (tries + 1) + h \<le> 255" using Suc.prems(1) ne by (simp add: unat_inc)
    show "\<forall>k<h. ln (Suc t + k)"
    proof (intro allI impI)
      fix k assume "k < h"
      then have "ln (t + Suc k)" using Suc.prems(2) by (meson Suc_less_eq)
      then show "ln (Suc t + k)" by simp
    qed
    show "\<not> ln (Suc t + h)" using Suc.prems(3) by simp
  qed
  then show ?case using step by simp
qed

lemma count_high_stuck:
  "(\<forall>k<256 - unat tries. ln (t + k))
   \<Longrightarrow> count_high ln t tries = (0, t + (256 - unat tries))"
proof (induction ln t tries rule: count_high.induct)
  case (1 ln t tries)
  have hi: "ln t" using 1(2) unat_lt_256 [of tries]
    by (metis add.right_neutral zero_less_diff)
  show ?case
  proof (cases "tries = 255")
    case True
    then show ?thesis using hi by (subst count_high.simps) (simp add: read_pin_def)
  next
    case False
    have step: "count_high ln t tries = count_high ln (Suc t) (tries + 1)"
      using hi False by (subst count_high.simps) (simp add: read_pin_def)
    have "count_high ln (Suc t) (tries + 1) = (0, Suc t + (256 - unat (tries + 1)))"
    proof (rule 1(1))
      show "read_pin ln t = 1" using hi by (simp add: read_pin_def)
      show "tries \<noteq> 255" by (rule False)
      show "\<forall>k<256 - unat (tries + 1). ln (Suc t + k)"
      proof (intro allI impI)
        fix k assume "k < 256 - unat (tries + 1)"
        then have "Suc k < 256 - unat tries" using False by (simp add: unat_inc)
        then have "ln (t + Suc k)" using 1(2) by blast
        then show "ln (Suc t + k)" by simp
      qed
    qed
    then show ?thesis using step False unat_lt_256 [of tries] by (simp add: unat_inc)
  qed
qed


lemma sample_pulse_returns_iff: "(\<exists>y. sample_pulse ln t = Some y) = (\<exists>k. ln (t + k))"
proof -
  have "(\<exists>y. sample_pulse ln t = Some y) = (\<exists>t'. wait_low ln t = Some t')"
    by (cases "wait_low ln t") (simp_all add: sample_pulse_def)
  then show ?thesis by (simp add: wait_low_returns)
qed

lemma next_bit_returns_iff: "(\<exists>y. next_bit ln g = Some y) = (\<exists>k. ln (polls g + k))"
proof -
  have "(\<exists>y. next_bit ln g = Some y) = (\<exists>y. sample_pulse ln (polls g) = Some y)"
    by (cases "sample_pulse ln (polls g)") (auto simp: next_bit_def)
  also have "\<dots> = (\<exists>k. ln (polls g + k))"
    by (rule sample_pulse_returns_iff)
  finally show ?thesis .
qed

subsection \<open>The bit classifier\<close>

text \<open>
  C5. The bit is 1 when the sample is greater than \<^verbatim>\<open>LONG_PULSE_LENGTH\<close> (28) and 0
  otherwise: a sample equal to the threshold gives 0, the threshold plus one gives 1,
  and there is no other output.
\<close>

theorem classify_threshold:
  "classify tries = (if 28 < unat tries then 1 else 0)
   \<and> classify LONG_PULSE_LENGTH = 0
   \<and> classify (LONG_PULSE_LENGTH + 1) = 1
   \<and> (classify tries = 0 \<or> classify tries = 1)"
  by (simp add: classify_def LONG_PULSE_LENGTH_def word_less_nat_alt)

subsection \<open>The sampler on a line that stays high\<close>

lemma sample_pulse_capped:
  "(\<forall>k\<le>256. ln (t + k)) \<Longrightarrow> sample_pulse ln t = Some (0, t + 257)"
proof -
  assume hi: "\<forall>k\<le>256. ln (t + k)"
  have "ln t" using hi by (metis add.right_neutral le0)
  then have low: "wait_low ln t = Some (Suc t)" by (rule wait_low_high)
  have "\<forall>k<256 - unat (0 :: 8 word). ln (Suc t + k)"
  proof (intro allI impI)
    fix k assume "k < 256 - unat (0 :: 8 word)"
    then have "Suc k \<le> 256" by simp
    then have "ln (t + Suc k)" using hi by blast
    then show "ln (Suc t + k)" by simp
  qed
  then have "count_high ln (Suc t) 0 = (0, Suc t + (256 - unat (0 :: 8 word)))"
    by (rule count_high_stuck)
  then show ?thesis using low by (simp add: sample_pulse_def)
qed

text \<open>
  C3. When the line is high for the read that ends the low wait and for the 256 reads
  after it, the high wait is left by the \<^verbatim>\<open>break\<close>, and the sample is 0, not 255:
  the post-increment of line 91 wraps the counter from 255 to 0 before the \<^verbatim>\<open>break\<close>.
  \<^verbatim>\<open>next_bit\<close> stores that 0 in \<^verbatim>\<open>tries_b\<close> and returns the bit 0.
\<close>

theorem next_bit_stuck_high:
  assumes "\<forall>k\<le>256. ln (polls g + k)"
  shows "sample_pulse ln (polls g) = Some (0, polls g + 257)
    \<and> (\<exists>g'. next_bit ln g = Some (0, g') \<and> tries_b g' (unat (try_count g)) = 0
          \<and> polls g' = polls g + 257)"
proof -
  have sp: "sample_pulse ln (polls g) = Some (0, polls g + 257)"
    using assms by (rule sample_pulse_capped)
  then show ?thesis by (simp add: next_bit_def classify_def)
qed

theorem next_bit_stuck_high_witness:
  "sample_pulse (\<lambda>_. True) 0 = Some (0, 257)
   \<and> (\<exists>g'. next_bit (\<lambda>_. True) globals_init = Some (0, g') \<and> tries_b g' 0 = 0
         \<and> polls g' = 257)"
  using next_bit_stuck_high [of "\<lambda>_. True" globals_init]
  by (simp add: globals_init_def)

subsection \<open>Termination of the sampler\<close>

text \<open>
  C9. The high wait always ends: \<open>count_high\<close> is a total function, and it reads the
  pin at most 256 times (255 counted reads and the read at which the cap breaks the
  loop). The low wait has no cap: the sampler returns exactly when the line is high
  at some read from the first one on, and on the line that is never high it does not
  return.
\<close>

theorem sample_pulse_returns:
  "snd (count_high ln t1 0) \<le> t1 + 256
   \<and> (\<exists>y. sample_pulse ln t = Some y) = (\<exists>k. ln (t + k))
   \<and> sample_pulse (\<lambda>_. False) t = None"
proof -
  have a: "snd (count_high ln t1 0) \<le> t1 + 256"
    using count_high_polls [of ln t1 0] by simp
  have b: "(\<exists>y. sample_pulse ln t = Some y) = (\<exists>k. ln (t + k))"
    by (rule sample_pulse_returns_iff)
  have "\<not> (\<exists>y. sample_pulse (\<lambda>_. False) t = Some y)"
  proof -
    have "(\<exists>t'. wait_low (\<lambda>_. False) t = Some t') = False"
      by (simp only: wait_low_returns) simp
    then show ?thesis by (cases "wait_low (\<lambda>_. False) t") (simp_all add: sample_pulse_def)
  qed
  then have c: "sample_pulse (\<lambda>_. False) t = None"
    by (cases "sample_pulse (\<lambda>_. False) t") auto
  show ?thesis using a b c by blast
qed

subsection \<open>The transaction as 44 samples and a fold\<close>

lemma classify_bit: "classify tries = 0 \<or> classify tries = 1"
  by (simp add: classify_def)

lemma next_bit_effect:
  assumes "next_bit ln g = Some (b, g')"
  shows "try_count g' = try_count g + 1"
    and "tries_b_log g' = unat (try_count g) # tries_b_log g"
    and "b = 0 \<or> b = 1"
proof -
  obtain tries t where sp: "sample_pulse ln (polls g) = Some (tries, t)"
    and b: "b = classify tries"
    and g': "g' = g\<lparr>polls := t,
         tries_b := (tries_b g)(unat (try_count g) := tries),
         tries_b_log := unat (try_count g) # tries_b_log g,
         try_count := try_count g + 1\<rparr>"
    using assms by (cases "sample_pulse ln (polls g)") (auto simp: next_bit_def)
  show "try_count g' = try_count g + 1" using g' by simp
  show "tries_b_log g' = unat (try_count g) # tries_b_log g" using g' by simp
  show "b = 0 \<or> b = 1" using b classify_bit by simp
qed

lemma next_bits_effect:
  "next_bits n ln g = Some (bs, g') \<Longrightarrow>
   length bs = n \<and> try_count g' = try_count g + of_nat n
   \<and> tries_b_log g' = rev (map (\<lambda>k. unat (try_count g + of_nat k)) [0..<n]) @ tries_b_log g
   \<and> set bs \<subseteq> {0, 1}"
proof (induction n arbitrary: g bs g')
  case 0
  then show ?case by simp
next
  case (Suc n)
  from Suc.prems obtain b g1 where nb: "next_bit ln g = Some (b, g1)"
    by (cases "next_bit ln g") auto
  with Suc.prems obtain bs1 where rest: "next_bits n ln g1 = Some (bs1, g')"
    and bs: "bs = b # bs1"
    by (cases "next_bits n ln g1") auto
  note e1 = next_bit_effect [OF nb]
  note e2 = Suc.IH [OF rest]
  have shift: "map (\<lambda>k. unat (try_count g + of_nat k)) [0..<Suc n]
      = unat (try_count g) # map (\<lambda>k. unat (try_count g1 + of_nat k)) [0..<n]"
    using e1(1) by (simp add: map_upt_Suc add.assoc del: upt_Suc)
  have "try_count g1 + of_nat n = try_count g + of_nat (Suc n)"
    using e1(1) by (simp add: add.assoc)
  then show ?case
    using e1 e2 bs shift by (simp del: upt_Suc of_nat_Suc)
qed

lemma scan_next_bits:
  "c + m = BIT_TRANSITIONS \<Longrightarrow>
   scan ln c fr g = do { (bs, g') \<leftarrow> next_bits m ln g; Some (assemble c bs fr, g') }"
proof (induction m arbitrary: c fr g)
  case 0
  then show ?case by (subst scan.simps) simp
next
  case (Suc m)
  then have lt: "c < BIT_TRANSITIONS" and nxt: "Suc c + m = BIT_TRANSITIONS" by simp_all
  show ?case
  proof (cases "next_bit ln g")
    case None
    then show ?thesis using lt by (subst scan.simps) simp
  next
    case (Some x)
    obtain b g1 where x: "x = (b, g1)" by (cases x)
    have "scan ln c fr g = scan ln (Suc c) (put_bit c b fr) g1"
      using lt Some x by (subst scan.simps) simp
    also have "\<dots> = do { (bs, g') \<leftarrow> next_bits m ln g1; Some (assemble (Suc c) bs (put_bit c b fr), g') }"
      by (rule Suc.IH [OF nxt])
    also have "\<dots> = do { (bs, g') \<leftarrow> next_bits (Suc m) ln g; Some (assemble c bs fr, g') }"
      using Some x by (cases "next_bits m ln g1") auto
    finally show ?thesis .
  qed
qed

lemma next_bits_Suc2:
  "next_bits (Suc (Suc n)) ln g =
     (case next_bit ln g of None \<Rightarrow> None
      | Some (b1, g1) \<Rightarrow>
          (case next_bit ln g1 of None \<Rightarrow> None
           | Some (b2, g2) \<Rightarrow>
               (case next_bits n ln g2 of None \<Rightarrow> None
                | Some (bs, g') \<Rightarrow> Some (b1 # b2 # bs, g'))))"
  by (auto split: option.splits)

lemma read_therm_next_bits:
  "read_therm ln stack g = do {
     (bs, g') \<leftarrow> next_bits 44 ln g;
     Some (fill_result (bits (assemble 0 (drop 2 bs) (bits_init stack))),
           assemble 0 (drop 2 bs) (bits_init stack), g') }"
proof -
  have e: "next_bits 44 ln g =
     (case next_bit ln g of None \<Rightarrow> None
      | Some (b1, g1) \<Rightarrow>
          (case next_bit ln g1 of None \<Rightarrow> None
           | Some (b2, g2) \<Rightarrow>
               (case next_bits 42 ln g2 of None \<Rightarrow> None
                | Some (bs, g') \<Rightarrow> Some (b1 # b2 # bs, g'))))"
    using next_bits_Suc2 [of 42 ln g] by simp
  have sc: "\<And>g2. scan ln 0 (bits_init stack) g2
      = do { (bs, g') \<leftarrow> next_bits 42 ln g2; Some (assemble 0 bs (bits_init stack), g') }"
    by (rule scan_next_bits) (simp add: BIT_TRANSITIONS_def)
  show ?thesis
  proof (cases "next_bit ln g")
    case None
    then show ?thesis by (simp add: read_therm_def e)
  next
    case (Some x)
    obtain b1 g1 where x: "x = (b1, g1)" by (cases x)
    show ?thesis
    proof (cases "next_bit ln g1")
      case None
      then show ?thesis using Some x by (simp add: read_therm_def e)
    next
      case in2: (Some y)
      obtain b2 g2 where y: "y = (b2, g2)" by (cases y)
      show ?thesis using Some x in2 y
        by (cases "next_bits 42 ln g2") (auto simp: read_therm_def e sc)
    qed
  qed
qed

lemma assemble_log:
  "bits_log (assemble c bs fr) = rev (map (\<lambda>i. drop_bit 3 (c + i)) [0..<length bs]) @ bits_log fr"
proof (induction bs arbitrary: c fr)
  case Nil
  then show ?case by simp
next
  case (Cons b bs)
  have "map (\<lambda>i. drop_bit 3 (c + i)) [0..<Suc (length bs)]
      = drop_bit 3 c # map (\<lambda>i. drop_bit 3 (Suc c + i)) [0..<length bs]"
    by (simp add: map_upt_Suc del: upt_Suc)
  then show ?case using Cons.IH [of "Suc c" "put_bit c b fr"]
    by (simp add: put_bit_def Let_def del: upt_Suc)
qed


subsection \<open>Transactions that return\<close>

lemma next_bits_returns:
  "(\<forall>t. \<exists>k. ln (t + k)) \<Longrightarrow> \<exists>bs g'. next_bits n ln g = Some (bs, g')"
proof (induction n arbitrary: g)
  case 0
  then show ?case by simp
next
  case (Suc n)
  have "\<exists>k. ln (polls g + k)" using Suc.prems by blast
  then obtain b g1 where nb: "next_bit ln g = Some (b, g1)"
    using next_bit_returns_iff [of ln g] by auto
  obtain bs g' where "next_bits n ln g1 = Some (bs, g')"
    using Suc.IH [OF Suc.prems] by blast
  then show ?case using nb by simp
qed

lemma read_therm_returns:
  assumes "\<forall>t. \<exists>k. ln (t + k)"
  shows "\<exists>r fr g'. read_therm ln stack g = Some (r, fr, g')"
proof -
  obtain bs g' where "next_bits 44 ln g = Some (bs, g')"
    using next_bits_returns [OF assms] by blast
  then show ?thesis by (simp add: read_therm_next_bits)
qed

lemma pulse_train_idle: "sum_list ws + length ws \<le> n \<Longrightarrow> pulse_train ws n"
proof (induction ws arbitrary: n)
  case Nil
  then show ?case by simp
next
  case (Cons w ws)
  then have "sum_list ws + length ws \<le> n - Suc w" by simp
  then have "pulse_train ws (n - Suc w)" by (rule Cons.IH)
  moreover have "w < n" using Cons.prems by simp
  ultimately show ?case by simp
qed

lemma pulse_train_recurs: "\<forall>t. \<exists>k. pulse_train ws (t + k)"
proof
  fix t
  have "pulse_train ws (t + (sum_list ws + length ws))"
    by (rule pulse_train_idle) simp
  then show "\<exists>k. pulse_train ws (t + k)" by blast
qed

lemma read_therm_effect:
  assumes "read_therm ln stack g = Some (r, fr, g')"
  shows "\<exists>bs. next_bits 44 ln g = Some (bs, g')
           \<and> fr = assemble 0 (drop 2 bs) (bits_init stack)
           \<and> r = fill_result (bits fr)"
  using assms by (cases "next_bits 44 ln g") (auto simp: read_therm_next_bits)

text \<open>
  C1. The specification counts 42 samples and 5 buckets per transaction. In the code a
  transaction that returns has called \<^verbatim>\<open>next_bit\<close> 44 times (2 for the preamble and 42 in the
  loop, since \<^verbatim>\<open>BIT_TRANSITIONS\<close> already counts the preamble), and the loop has
  stored its 42 bits at the offsets \<open>counter div 8\<close>: the bits of \<open>counter = 40\<close>
  and \<open>41\<close> go to \<^verbatim>\<open>bits[5]\<close>, one cell past the array of 5.
\<close>

theorem read_therm_sample_count:
  "read_therm ln stack g = Some (r, fr, g') \<Longrightarrow>
   length (tries_b_log g') = length (tries_b_log g) + 44
   \<and> rev (bits_log fr) = map (\<lambda>counter. counter div 8) [0..<42]
   \<and> rev (bits_log fr) ! 40 = 5 \<and> rev (bits_log fr) ! 41 = 5
   \<and> bits_size = 5"
proof -
  assume rt: "read_therm ln stack g = Some (r, fr, g')"
  then obtain bs where nb: "next_bits 44 ln g = Some (bs, g')"
    and fr: "fr = assemble 0 (drop 2 bs) (bits_init stack)"
    using read_therm_effect by blast
  note e = next_bits_effect [OF nb]
  have len: "length (tries_b_log g') = length (tries_b_log g) + 44"
    using e by simp
  have "length (drop 2 bs) = 42" using e by simp
  then have log: "rev (bits_log fr) = map (\<lambda>counter. counter div 8) [0..<42]"
    unfolding fr by (simp add: assemble_log bits_init_def drop_bit_eq_div rev_map [symmetric] del: upt_Suc)
  have "map (\<lambda>counter. counter div 8) [0..<42] ! 40 = (5 :: nat)"
    "map (\<lambda>counter. counter div 8) [0..<42] ! 41 = (5 :: nat)"
    by (simp_all del: upt_Suc)
  then show ?thesis using len log by (simp add: bits_size_def del: upt_Suc)
qed

theorem read_therm_sample_count_witness:
  "\<exists>r fr g'. read_therm (pulse_train frame_match) (\<lambda>_. 0) globals_init = Some (r, fr, g')
     \<and> length (tries_b_log g') = 44 \<and> rev (bits_log fr) ! 40 = 5"
proof -
  obtain r fr g' where rt: "read_therm (pulse_train frame_match) (\<lambda>_. 0) globals_init = Some (r, fr, g')"
    using read_therm_returns [OF pulse_train_recurs] by blast
  show ?thesis using rt read_therm_sample_count [OF rt] by (simp add: globals_init_def)
qed

subsection \<open>Shifting bits into a bucket\<close>

lemma shift_in_bit: "b = 0 \<or> b = 1 \<Longrightarrow> push_bit 1 a OR b = 2 * a + (b :: 8 word)"
  by (auto simp: or_one_eq push_bit_eq_mult)

lemma unat_bit: "b = 0 \<or> b = 1 \<Longrightarrow> unat (b :: 8 word) \<le> 1"
  by auto

lemma byte_of_bits:
  fixes a :: "8 word"
  assumes "x0 = 0 \<or> x0 = 1" "x1 = 0 \<or> x1 = 1" "x2 = 0 \<or> x2 = 1" "x3 = 0 \<or> x3 = 1"
    "x4 = 0 \<or> x4 = 1" "x5 = 0 \<or> x5 = 1" "x6 = 0 \<or> x6 = 1" "x7 = 0 \<or> x7 = 1"
  shows "unat (foldl (\<lambda>a b. push_bit 1 a OR b) a [x0, x1, x2, x3, x4, x5, x6, x7])
    = 128 * unat x0 + 64 * unat x1 + 32 * unat x2 + 16 * unat x3
      + 8 * unat x4 + 4 * unat x5 + 2 * unat x6 + unat x7"
proof -
  let ?S = "128 * unat x0 + 64 * unat x1 + 32 * unat x2 + 16 * unat x3
      + 8 * unat x4 + 4 * unat x5 + 2 * unat x6 + unat x7"
  have "foldl (\<lambda>a b. push_bit 1 a OR b) a [x0, x1, x2, x3, x4, x5, x6, x7]
      = 2 * (2 * (2 * (2 * (2 * (2 * (2 * (2 * a + x0) + x1) + x2) + x3) + x4) + x5) + x6) + x7"
    by (simp only: foldl.simps assms [THEN shift_in_bit])
  also have "\<dots> = 256 * a + (128 * x0 + 64 * x1 + 32 * x2 + 16 * x3 + 8 * x4 + 4 * x5 + 2 * x6 + x7)"
    by (simp add: algebra_simps)
  also have "\<dots> = 128 * x0 + 64 * x1 + 32 * x2 + 16 * x3 + 8 * x4 + 4 * x5 + 2 * x6 + x7"
  proof -
    have "(256 :: 8 word) = 0" by simp
    then have "256 * a = 0" by (simp only: mult_zero_left)
    then show ?thesis by simp
  qed
  finally have "unat (foldl (\<lambda>a b. push_bit 1 a OR b) a [x0, x1, x2, x3, x4, x5, x6, x7])
      = ?S mod 256"
    by (simp add: unat_word_ariths mod_simps)
  moreover have "?S < 256"
    using assms [THEN unat_bit] by linarith
  ultimately show ?thesis by simp
qed

lemma put_bit_bits:
  "bits (put_bit c b fr) j = (if c div 8 = j then push_bit 1 (bits fr j) OR b else bits fr j)"
  by (simp add: put_bit_def Let_def drop_bit_eq_div)

lemma assemble_bits:
  "bits (assemble c bs fr) j =
     foldl (\<lambda>a b. push_bit 1 a OR b) (bits fr j)
       (take (8 * j + 8 - max c (8 * j)) (drop (8 * j - c) bs))"
proof (induction bs arbitrary: c fr)
  case Nil
  then show ?case by simp
next
  case (Cons b bs)
  note IH = Cons.IH [of "Suc c" "put_bit c b fr"]
  consider (before) "c < 8 * j" | (inside) "8 * j \<le> c" "c < 8 * j + 8" | (after) "8 * j + 8 \<le> c"
    by linarith
  then show ?case
  proof cases
    case before
    then have "c div 8 \<noteq> j" by auto
    moreover have "8 * j - c = Suc (8 * j - Suc c)" using before by simp
    moreover have "max (Suc c) (8 * j) = 8 * j" "max c (8 * j) = 8 * j" using before by simp_all
    ultimately show ?thesis using IH by (simp add: put_bit_bits)
  next
    case inside
    then have "c div 8 = j" by auto
    moreover have "8 * j + 8 - c = Suc (8 * j + 8 - Suc c)" using inside by simp
    moreover have "max (Suc c) (8 * j) = Suc c" "max c (8 * j) = c" using inside by simp_all
    moreover have "8 * j - c = 0" "8 * j - Suc c = 0" using inside by simp_all
    ultimately show ?thesis using IH by (simp add: put_bit_bits)
  next
    case after
    then have "c div 8 \<noteq> j" by auto
    moreover have "max (Suc c) (8 * j) = Suc c" "max c (8 * j) = c" using after by simp_all
    moreover have "8 * j + 8 - c = 0" "8 * j + 8 - Suc c = 0" using after by simp_all
    ultimately show ?thesis using IH by (simp add: put_bit_bits)
  qed
qed

lemma take8_nth:
  "8 \<le> length xs \<Longrightarrow> take 8 xs = [xs ! 0, xs ! 1, xs ! 2, xs ! 3, xs ! 4, xs ! 5, xs ! 6, xs ! 7]"
proof -
  assume len: "8 \<le> length xs"
  have "take 8 xs = map ((!) xs) [0..<8]"
    using len by (simp add: list_eq_iff_nth_eq)
  also have "[0..<8] = [0, 1, 2, 3, 4, 5, 6, 7 :: nat]"
    by (simp add: upt_rec)
  finally show ?thesis by simp
qed

subsection \<open>The two 16-bit fields\<close>

lemma unat_ucast_8_16: "unat (ucast (a :: 8 word) :: 16 word) = unat a"
proof -
  have "unat a < 2 ^ 16" using unat_lt_256 [of a] by simp
  then show ?thesis by (simp add: unsigned_ucast_eq take_bit_nat_eq_self)
qed

lemma disjoint_16: "push_bit 8 (ucast (a :: 8 word) :: 16 word) AND ucast (b :: 8 word) = 0"
  by (auto simp: bit_eq_iff bit_simps dest: bit_imp_le_length)

lemma unat_pair_16:
  "unat (push_bit 8 (ucast (a :: 8 word)) OR ucast (b :: 8 word) :: 16 word) = 256 * unat a + unat b"
proof -
  have "push_bit 8 (ucast a) OR ucast b = (push_bit 8 (ucast a) + ucast b :: 16 word)"
    by (rule disjunctive_add_eq_or [symmetric]) (rule disjoint_16)
  also have "\<dots> = 256 * ucast a + ucast b"
    by (simp add: push_bit_eq_mult)
  finally have "unat (push_bit 8 (ucast a) OR ucast b :: 16 word)
      = (256 * unat a + unat b) mod 65536"
    by (simp add: unat_word_ariths unat_ucast_8_16 mod_simps)
  moreover have "256 * unat a + unat b < 65536"
    using unat_lt_256 [of a] unat_lt_256 [of b] by linarith
  ultimately show ?thesis by simp
qed


subsection \<open>The frame assembler\<close>

lemma scan_returns:
  assumes "\<forall>t. \<exists>k. ln (t + k)"
  shows "\<exists>fr g'. scan ln 0 fr0 g = Some (fr, g')"
proof -
  obtain bs g' where "next_bits 42 ln g = Some (bs, g')"
    using next_bits_returns [OF assms] by blast
  moreover have "scan ln 0 fr0 g = do { (bs, g') \<leftarrow> next_bits 42 ln g; Some (assemble 0 bs fr0, g') }"
    by (rule scan_next_bits) (simp add: BIT_TRANSITIONS_def)
  ultimately show ?thesis by simp
qed

lemma assembled_bucket:
  assumes len: "8 * j + 8 \<le> length bs" and bin: "set bs \<subseteq> {0, 1}"
  shows "unat (bits (assemble 0 bs fr) j)
    = 128 * unat (bs ! (8 * j)) + 64 * unat (bs ! (8 * j + 1)) + 32 * unat (bs ! (8 * j + 2))
      + 16 * unat (bs ! (8 * j + 3)) + 8 * unat (bs ! (8 * j + 4)) + 4 * unat (bs ! (8 * j + 5))
      + 2 * unat (bs ! (8 * j + 6)) + unat (bs ! (8 * j + 7))"
proof -
  have el: "\<And>k. k < 8 \<Longrightarrow> bs ! (8 * j + k) = 0 \<or> bs ! (8 * j + k) = 1"
  proof -
    fix k :: nat assume "k < 8"
    then have "bs ! (8 * j + k) \<in> set bs" using len by simp
    then show "bs ! (8 * j + k) = 0 \<or> bs ! (8 * j + k) = 1" using bin by auto
  qed
  have "8 \<le> length (drop (8 * j) bs)" using len by simp
  then have "take 8 (drop (8 * j) bs)
      = [bs ! (8 * j), bs ! (8 * j + 1), bs ! (8 * j + 2), bs ! (8 * j + 3),
         bs ! (8 * j + 4), bs ! (8 * j + 5), bs ! (8 * j + 6), bs ! (8 * j + 7)]"
    using len by (simp add: take8_nth)
  then have "bits (assemble 0 bs fr) j
      = foldl (\<lambda>a b. push_bit 1 a OR b) (bits fr j)
         [bs ! (8 * j), bs ! (8 * j + 1), bs ! (8 * j + 2), bs ! (8 * j + 3),
          bs ! (8 * j + 4), bs ! (8 * j + 5), bs ! (8 * j + 6), bs ! (8 * j + 7)]"
    by (simp add: assemble_bits)
  then show ?thesis
    using byte_of_bits [OF el [of 0, simplified] el [of 1] el [of 2] el [of 3] el [of 4] el [of 5] el [of 6] el [of 7], of "bits fr j"]
    by simp
qed

text \<open>
  C4. When the loop of lines 126-130 returns, it has stored the bit of iteration \<open>i\<close>
  (the \<open>i\<close>-th bit that \<^verbatim>\<open>next_bit\<close> returned) at offset \<open>i div 8\<close>, and each of the five
  buckets holds the big-endian value of its eight bits, the first one as most
  significant bit. (The loop runs for 42 bits; the 40 data bits are the first 40.)
\<close>

theorem scan_big_endian:
  assumes "scan ln 0 (bits_init stack) g = Some (fr, g')"
  shows "\<exists>bs. next_bits 42 ln g = Some (bs, g') \<and> length bs = 42 \<and> set bs \<subseteq> {0, 1}
    \<and> rev (bits_log fr) = map (\<lambda>i. i div 8) [0..<42]
    \<and> (\<forall>j<5. unat (bits fr j)
          = 128 * unat (bs ! (8 * j)) + 64 * unat (bs ! (8 * j + 1))
            + 32 * unat (bs ! (8 * j + 2)) + 16 * unat (bs ! (8 * j + 3))
            + 8 * unat (bs ! (8 * j + 4)) + 4 * unat (bs ! (8 * j + 5))
            + 2 * unat (bs ! (8 * j + 6)) + unat (bs ! (8 * j + 7)))"
proof -
  have sc: "scan ln 0 (bits_init stack) g
      = do { (bs, g') \<leftarrow> next_bits 42 ln g; Some (assemble 0 bs (bits_init stack), g') }"
    by (rule scan_next_bits) (simp add: BIT_TRANSITIONS_def)
  then obtain bs where nb: "next_bits 42 ln g = Some (bs, g')"
    and fr: "fr = assemble 0 bs (bits_init stack)"
    using assms by (cases "next_bits 42 ln g") auto
  note e = next_bits_effect [OF nb]
  have len: "length bs = 42" and bin: "set bs \<subseteq> {0, 1}" using e by simp_all
  have log: "rev (bits_log fr) = map (\<lambda>i. i div 8) [0..<42]"
    unfolding fr using len
    by (simp add: assemble_log bits_init_def drop_bit_eq_div rev_map [symmetric] del: upt_Suc)
  have val: "\<forall>j<5. unat (bits fr j)
          = 128 * unat (bs ! (8 * j)) + 64 * unat (bs ! (8 * j + 1))
            + 32 * unat (bs ! (8 * j + 2)) + 16 * unat (bs ! (8 * j + 3))
            + 8 * unat (bs ! (8 * j + 4)) + 4 * unat (bs ! (8 * j + 5))
            + 2 * unat (bs ! (8 * j + 6)) + unat (bs ! (8 * j + 7))"
  proof (intro allI impI)
    fix j :: nat assume "j < 5"
    then have "8 * j + 8 \<le> length bs" using len by simp
    then show "unat (bits fr j)
          = 128 * unat (bs ! (8 * j)) + 64 * unat (bs ! (8 * j + 1))
            + 32 * unat (bs ! (8 * j + 2)) + 16 * unat (bs ! (8 * j + 3))
            + 8 * unat (bs ! (8 * j + 4)) + 4 * unat (bs ! (8 * j + 5))
            + 2 * unat (bs ! (8 * j + 6)) + unat (bs ! (8 * j + 7))"
      unfolding fr using bin by (rule assembled_bucket)
  qed
  show ?thesis using nb len bin log val by blast
qed

lemma read_therm_steps:
  assumes "read_therm ln stack g = Some (r, fr, g')"
  shows "\<exists>b1 g1 b2 g2. next_bit ln g = Some (b1, g1) \<and> next_bit ln g1 = Some (b2, g2)
           \<and> scan ln 0 (bits_init stack) g2 = Some (fr, g') \<and> r = fill_result (bits fr)"
  using assms unfolding read_therm_def
  by (auto simp: Option.bind_eq_Some_conv)

text \<open>
  C6. In a transaction that returns, \<open>fr\<close> is the frame the loop assembled, the
  humidity is \<^verbatim>\<open>bits[0] << 8 | bits[1]\<close> and the temperature is
  \<^verbatim>\<open>bits[2] << 8 | bits[3]\<close>; as numbers, 256 times the high byte plus the low byte.
\<close>

theorem read_therm_fields:
  assumes "read_therm ln stack g = Some (r, fr, g')"
  shows "(\<exists>b1 g1 b2 g2. next_bit ln g = Some (b1, g1) \<and> next_bit ln g1 = Some (b2, g2)
           \<and> scan ln 0 (bits_init stack) g2 = Some (fr, g'))
    \<and> humidity r = push_bit 8 (ucast (bits fr 0)) OR ucast (bits fr 1)
    \<and> temperature r = push_bit 8 (ucast (bits fr 2)) OR ucast (bits fr 3)
    \<and> unat (humidity r) = 256 * unat (bits fr 0) + unat (bits fr 1)
    \<and> unat (temperature r) = 256 * unat (bits fr 2) + unat (bits fr 3)"
proof -
  obtain b1 g1 b2 g2 where st: "next_bit ln g = Some (b1, g1)" "next_bit ln g1 = Some (b2, g2)"
    "scan ln 0 (bits_init stack) g2 = Some (fr, g')" and r: "r = fill_result (bits fr)"
    using read_therm_steps [OF assms] by blast
  have "humidity r = push_bit 8 (ucast (bits fr 0)) OR ucast (bits fr 1)"
    "temperature r = push_bit 8 (ucast (bits fr 2)) OR ucast (bits fr 3)"
    unfolding r by (simp_all add: fill_result_def)
  then show ?thesis using st by (auto simp: unat_pair_16)
qed


subsection \<open>Transactions on a pulse train\<close>

lemma sample_pulse_width:
  assumes f: "follows ln t (w # ws)" and w: "0 < w" "w \<le> 256"
  shows "sample_pulse ln t = Some (of_nat (w - 1), t + w + 1)"
proof -
  have at: "\<And>k. ln (t + k) = pulse_train (w # ws) k" using f by (simp add: follows_def)
  have "ln (t + 0)" unfolding at using w by simp
  then have low: "wait_low ln t = Some (Suc t)" by (simp add: wait_low_high)
  have "count_high ln (Suc t) 0 = (0 + of_nat (w - 1), Suc (Suc t + (w - 1)))"
  proof (rule count_high_pulse)
    show "unat (0 :: 8 word) + (w - 1) \<le> 255" using w by simp
    show "\<forall>k<w - 1. ln (Suc t + k)"
    proof (intro allI impI)
      fix k assume "k < w - 1"
      then have "Suc k < w" by arith
      then have "pulse_train (w # ws) (Suc k)" by simp
      then have "ln (t + Suc k)" by (simp only: at)
      then show "ln (Suc t + k)" by simp
    qed
    have "\<not> ln (t + w)" using at [of w] by simp
    then show "\<not> ln (Suc t + (w - 1))" using w by simp
  qed
  then show ?thesis using low w by (simp add: sample_pulse_def)
qed

lemma follows_next: "follows ln t (w # ws) \<Longrightarrow> follows ln (t + w + 1) ws"
proof -
  assume f: "follows ln t (w # ws)"
  have "\<And>k. ln (t + w + 1 + k) = pulse_train ws k"
  proof -
    fix k
    have "ln (t + (w + 1 + k)) = pulse_train (w # ws) (w + 1 + k)"
      using f unfolding follows_def by blast
    then show "ln (t + w + 1 + k) = pulse_train ws k" by (simp add: add.assoc)
  qed
  then show ?thesis by (simp add: follows_def)
qed

lemma next_bit_width:
  assumes "follows ln (polls g) (w # ws)" "0 < w" "w \<le> 256"
  shows "\<exists>g1. next_bit ln g = Some (classify (of_nat (w - 1)), g1) \<and> follows ln (polls g1) ws"
  using sample_pulse_width [OF assms] follows_next [OF assms(1)]
  by (simp add: next_bit_def)

lemma next_bit_idle:
  assumes "follows ln (polls g) []"
  shows "\<exists>g1. next_bit ln g = Some (0, g1) \<and> follows ln (polls g1) []"
proof -
  have hi: "\<And>k. ln (polls g + k)" using assms by (simp add: follows_def)
  then have "sample_pulse ln (polls g) = Some (0, polls g + 257)"
    by (simp add: sample_pulse_capped)
  moreover have "follows ln (polls g + 257) []"
    using hi [of "257 + k" for k] by (simp add: follows_def add.assoc)
  ultimately show ?thesis by (simp add: next_bit_def classify_def)
qed

lemma next_bits_idle:
  "follows ln (polls g) [] \<Longrightarrow> \<exists>g'. next_bits m ln g = Some (replicate m 0, g')"
proof (induction m arbitrary: g)
  case 0
  then show ?case by simp
next
  case (Suc m)
  obtain g1 where nb: "next_bit ln g = Some (0, g1)" and f: "follows ln (polls g1) []"
    using next_bit_idle [OF Suc.prems] by blast
  obtain g' where "next_bits m ln g1 = Some (replicate m 0, g')"
    using Suc.IH [OF f] by blast
  then show ?case using nb by simp
qed

lemma next_bits_train:
  "follows ln (polls g) ws \<Longrightarrow> (\<forall>w\<in>set ws. 0 < w \<and> w \<le> 256) \<Longrightarrow>
   \<exists>g'. next_bits (length ws + m) ln g
     = Some (map (\<lambda>w. classify (of_nat (w - 1))) ws @ replicate m 0, g')"
proof (induction ws arbitrary: g)
  case Nil
  then show ?case using next_bits_idle [of ln g m] by simp
next
  case (Cons w ws)
  have w: "0 < w" "w \<le> 256" using Cons.prems(2) by simp_all
  obtain g1 where nb: "next_bit ln g = Some (classify (of_nat (w - 1)), g1)"
    and f: "follows ln (polls g1) ws"
    using next_bit_width [OF Cons.prems(1) w] by blast
  have "\<forall>w\<in>set ws. 0 < w \<and> w \<le> 256" using Cons.prems(2) by simp
  then obtain g' where "next_bits (length ws + m) ln g1
     = Some (map (\<lambda>w. classify (of_nat (w - 1))) ws @ replicate m 0, g')"
    using Cons.IH [OF f] by blast
  then show ?case using nb by simp
qed

lemma frame_byte:
  "j < 5 \<Longrightarrow> bits (assemble 0 bs (bits_init stack)) j
     = foldl (\<lambda>a b. push_bit 1 a OR b) 0 (take 8 (drop (8 * j) bs))"
  by (simp add: assemble_bits bits_init_def bits_size_def)

lemma read_therm_train:
  assumes "polls g = 0" "\<forall>w\<in>set ws. 0 < w \<and> w \<le> 256" "length ws + m = 44"
  shows "\<exists>r fr g'. read_therm (pulse_train ws) stack g = Some (r, fr, g')
    \<and> r = fill_result (bits fr)
    \<and> map (bits fr) [0, 1, 2, 3, 4]
        = map (\<lambda>j. foldl (\<lambda>a b. push_bit 1 a OR b) 0
            (take 8 (drop (8 * j + 2) (map (\<lambda>w. classify (of_nat (w - 1))) ws @ replicate m 0))))
            [0, 1, 2, 3, 4]"
proof -
  define bs where "bs = map (\<lambda>w. classify (of_nat (w - 1))) ws @ replicate m (0 :: 8 word)"
  define fr where "fr = assemble 0 (drop 2 bs) (bits_init stack)"
  have "follows (pulse_train ws) (polls g) ws" using assms(1) by (simp add: follows_def)
  then obtain g' where "next_bits (length ws + m) (pulse_train ws) g = Some (bs, g')"
    unfolding bs_def using next_bits_train [OF _ assms(2)] by blast
  then have nb: "next_bits 44 (pulse_train ws) g = Some (bs, g')"
    by (simp only: assms(3))
  have rt: "read_therm (pulse_train ws) stack g = Some (fill_result (bits fr), fr, g')"
    unfolding fr_def by (simp add: read_therm_next_bits nb)
  have byte: "\<And>j. j < 5 \<Longrightarrow> bits fr j
      = foldl (\<lambda>a b. push_bit 1 a OR b) 0 (take 8 (drop (8 * j + 2) bs))"
    unfolding fr_def by (simp only: frame_byte drop_drop)
  have "map (bits fr) [0, 1, 2, 3, 4]
      = map (\<lambda>j. foldl (\<lambda>a b. push_bit 1 a OR b) 0 (take 8 (drop (8 * j + 2) bs))) [0, 1, 2, 3, 4]"
    by (simp add: byte)
  then show ?thesis using rt unfolding bs_def by blast
qed


subsection \<open>Repeating a transaction\<close>

lemma wait_low_shift:
  assumes "\<forall>k. ln1 (t1 + k) = ln2 (t2 + k)"
  shows "(wait_low ln1 t1 = None \<and> wait_low ln2 t2 = None)
    \<or> (\<exists>d. wait_low ln1 t1 = Some (t1 + d) \<and> wait_low ln2 t2 = Some (t2 + d))"
proof (cases "\<exists>k. ln1 (t1 + k)")
  case True
  define m where "m = (LEAST k. ln1 (t1 + k))"
  have hi: "ln1 (t1 + m)" unfolding m_def using True by (metis LeastI)
  have lo: "\<forall>j<m. \<not> ln1 (t1 + j)" unfolding m_def using not_less_Least by blast
  have "wait_low ln1 t1 = Some (Suc (t1 + m))"
    using hi lo by (rule wait_low_first_high)
  moreover have "wait_low ln2 t2 = Some (Suc (t2 + m))"
  proof (rule wait_low_first_high)
    show "ln2 (t2 + m)" using hi assms by simp
    show "\<forall>j<m. \<not> ln2 (t2 + j)" using lo assms by simp
  qed
  ultimately have "wait_low ln1 t1 = Some (t1 + Suc m) \<and> wait_low ln2 t2 = Some (t2 + Suc m)"
    by simp
  then show ?thesis by blast
next
  case False
  then have "\<not> (\<exists>k. ln2 (t2 + k))" using assms by simp
  then have "\<not> (\<exists>t'. wait_low ln2 t2 = Some t')"
    using wait_low_returns [of ln2 t2] by blast
  then have n2: "wait_low ln2 t2 = None" by (cases "wait_low ln2 t2") auto
  have "\<not> (\<exists>t'. wait_low ln1 t1 = Some t')"
    using False wait_low_returns [of ln1 t1] by blast
  then have "wait_low ln1 t1 = None" by (cases "wait_low ln1 t1") auto
  then show ?thesis using n2 by simp
qed

lemma count_high_shift:
  "(\<forall>k. ln1 (t1 + k) = ln2 (t2 + k)) \<Longrightarrow>
   \<exists>c d. count_high ln1 t1 tries = (c, t1 + d) \<and> count_high ln2 t2 tries = (c, t2 + d)"
proof (induction ln1 t1 tries arbitrary: t2 rule: count_high.induct)
  case (1 ln1 t1 tries)
  have same: "ln1 t1 = ln2 t2" using "1.prems" by (metis add.right_neutral)
  show ?case
  proof (cases "ln1 t1 \<and> tries \<noteq> 255")
    case True
    have sh: "\<forall>k. ln1 (Suc t1 + k) = ln2 (Suc t2 + k)"
    proof
      fix k
      have "ln1 (t1 + Suc k) = ln2 (t2 + Suc k)" using "1.prems" by blast
      then show "ln1 (Suc t1 + k) = ln2 (Suc t2 + k)" by simp
    qed
    have "read_pin ln1 t1 = 1" "tries \<noteq> 255" using True by (simp_all add: read_pin_def)
    then obtain c d where r: "count_high ln1 (Suc t1) (tries + 1) = (c, Suc t1 + d)"
      "count_high ln2 (Suc t2) (tries + 1) = (c, Suc t2 + d)"
      using "1.IH" [OF _ _ sh] by blast
    have "count_high ln1 t1 tries = (c, t1 + Suc d)"
      using True r(1) by (subst count_high.simps) (simp add: read_pin_def)
    moreover have "count_high ln2 t2 tries = (c, t2 + Suc d)"
      using True same r(2) by (subst count_high.simps) (simp add: read_pin_def)
    ultimately show ?thesis by blast
  next
    case False
    have "count_high ln1 t1 tries = (if ln1 t1 then tries + 1 else tries, t1 + 1)"
      using False by (subst count_high.simps) (auto simp: read_pin_def)
    moreover have "count_high ln2 t2 tries = (if ln1 t1 then tries + 1 else tries, t2 + 1)"
      using False same by (subst count_high.simps) (auto simp: read_pin_def)
    ultimately show ?thesis by blast
  qed
qed

lemma sample_pulse_shift:
  assumes "\<forall>k. ln1 (t1 + k) = ln2 (t2 + k)"
  shows "(sample_pulse ln1 t1 = None \<and> sample_pulse ln2 t2 = None)
    \<or> (\<exists>c d. sample_pulse ln1 t1 = Some (c, t1 + d) \<and> sample_pulse ln2 t2 = Some (c, t2 + d))"
proof -
  consider (hang) "wait_low ln1 t1 = None" "wait_low ln2 t2 = None"
    | (go) d where "wait_low ln1 t1 = Some (t1 + d)" "wait_low ln2 t2 = Some (t2 + d)"
    using wait_low_shift [OF assms] by auto
  then show ?thesis
  proof cases
    case hang
    then show ?thesis by (simp add: sample_pulse_def)
  next
    case go
    have "\<forall>k. ln1 (t1 + d + k) = ln2 (t2 + d + k)"
      using assms by (simp add: add.assoc)
    then obtain c e where "count_high ln1 (t1 + d) 0 = (c, t1 + d + e)"
      "count_high ln2 (t2 + d) 0 = (c, t2 + d + e)"
      using count_high_shift by blast
    then have "sample_pulse ln1 t1 = Some (c, t1 + (d + e))
        \<and> sample_pulse ln2 t2 = Some (c, t2 + (d + e))"
      using go by (simp add: sample_pulse_def add.assoc)
    then show ?thesis by blast
  qed
qed

lemma next_bit_shift:
  assumes "\<forall>k. ln1 (polls g1 + k) = ln2 (polls g2 + k)"
  shows "(next_bit ln1 g1 = None \<and> next_bit ln2 g2 = None)
    \<or> (\<exists>b h1 h2. next_bit ln1 g1 = Some (b, h1) \<and> next_bit ln2 g2 = Some (b, h2)
          \<and> (\<forall>k. ln1 (polls h1 + k) = ln2 (polls h2 + k)))"
proof -
  consider (hang) "sample_pulse ln1 (polls g1) = None" "sample_pulse ln2 (polls g2) = None"
    | (go) c d where "sample_pulse ln1 (polls g1) = Some (c, polls g1 + d)"
        "sample_pulse ln2 (polls g2) = Some (c, polls g2 + d)"
    using sample_pulse_shift [OF assms] by auto
  then show ?thesis
  proof cases
    case hang
    then show ?thesis by (simp add: next_bit_def)
  next
    case go
    have "\<forall>k. ln1 (polls g1 + d + k) = ln2 (polls g2 + d + k)"
      using assms by (simp add: add.assoc)
    then show ?thesis using go by (simp add: next_bit_def)
  qed
qed

lemma next_bits_shift:
  "(\<forall>k. ln1 (polls g1 + k) = ln2 (polls g2 + k)) \<Longrightarrow>
   map_option fst (next_bits n ln1 g1) = map_option fst (next_bits n ln2 g2)"
proof (induction n arbitrary: g1 g2)
  case 0
  then show ?case by simp
next
  case (Suc n)
  consider (hang) "next_bit ln1 g1 = None" "next_bit ln2 g2 = None"
    | (go) b h1 h2 where "next_bit ln1 g1 = Some (b, h1)" "next_bit ln2 g2 = Some (b, h2)"
        "\<forall>k. ln1 (polls h1 + k) = ln2 (polls h2 + k)"
    using next_bit_shift [OF Suc.prems] by auto
  then show ?case
  proof cases
    case hang
    then show ?thesis by simp
  next
    case go
    have "map_option fst (next_bits n ln1 h1) = map_option fst (next_bits n ln2 h2)"
      using Suc.IH [OF go(3)] .
    then show ?thesis using go(1,2)
      by (cases "next_bits n ln1 h1"; cases "next_bits n ln2 h2") auto
  qed
qed

lemma fill_result_frame:
  "fill_result (bits (assemble 0 bs (bits_init stack1)))
     = fill_result (bits (assemble 0 bs (bits_init stack2)))"
  by (simp add: fill_result_def frame_byte)

lemma read_therm_result:
  "map_option fst (read_therm ln stack g)
     = map_option (\<lambda>bs. fill_result (bits (assemble 0 (drop 2 bs) (bits_init stack))))
         (map_option fst (next_bits 44 ln g))"
  by (cases "next_bits 44 ln g") (auto simp: read_therm_next_bits)

text \<open>
  C8. Two runs of \<^verbatim>\<open>read_therm\<close> that see the same levels at their successive reads of
  the pin give the same result (or both do not return), whatever the debug globals
  and the memory around \<^verbatim>\<open>bits\<close> hold at the start of each run.
\<close>

theorem read_therm_repeatable:
  assumes "\<forall>k. ln1 (polls g1 + k) = ln2 (polls g2 + k)"
  shows "map_option fst (read_therm ln1 stack1 g1) = map_option fst (read_therm ln2 stack2 g2)"
  unfolding read_therm_result next_bits_shift [OF assms, of 44]
  by (simp add: fill_result_frame [of _ stack1 stack2])



subsection \<open>The two recorded transactions\<close>

lemma pair_zero: "replicate 2 (0 :: 8 word) = [0, 0]"
  by (simp add: numeral_2_eq_2)

lemma frame_match_bytes:
  "\<exists>r fr g'. read_therm (pulse_train frame_match) stack globals_init = Some (r, fr, g')
     \<and> r = fill_result (bits fr)
     \<and> map (bits fr) [0, 1, 2, 3, 4] = [0x01, 0x90, 0x00, 0xC8, 0x59]"
proof -
  have a: "polls globals_init = 0" by (simp add: globals_init_def)
  have b: "\<forall>w\<in>set frame_match. 0 < w \<and> w \<le> 256" by (simp add: frame_match_def)
  have c: "length frame_match + 2 = 44" by (simp add: frame_match_def)
  show ?thesis
    using read_therm_train [OF a b c, of stack] unfolding pair_zero
    by (simp add: frame_match_def classify_def LONG_PULSE_LENGTH_def)
qed

lemma frame_mismatch_bytes:
  "\<exists>r fr g'. read_therm (pulse_train frame_mismatch) stack globals_init = Some (r, fr, g')
     \<and> r = fill_result (bits fr)
     \<and> map (bits fr) [0, 1, 2, 3, 4] = [0x02, 0x8C, 0x01, 0x01, 0x8F]"
proof -
  have a: "polls globals_init = 0" by (simp add: globals_init_def)
  have b: "\<forall>w\<in>set frame_mismatch. 0 < w \<and> w \<le> 256" by (simp add: frame_mismatch_def)
  have c: "length frame_mismatch + 2 = 44" by (simp add: frame_mismatch_def)
  show ?thesis
    using read_therm_train [OF a b c, of stack] unfolding pair_zero
    by (simp add: frame_mismatch_def classify_def LONG_PULSE_LENGTH_def)
qed

theorem scan_big_endian_witness:
  "\<exists>fr g' bs. scan (pulse_train (drop 2 frame_match)) 0 (bits_init (\<lambda>_. 0)) globals_init
        = Some (fr, g')
     \<and> next_bits 42 (pulse_train (drop 2 frame_match)) globals_init = Some (bs, g')
     \<and> take 8 (drop 8 bs) = [1, 0, 0, 1, 0, 0, 0, 0]
     \<and> unat (bits fr 1) = 0x90"
proof -
  let ?ws = "drop 2 frame_match"
  obtain fr g' where sc: "scan (pulse_train ?ws) 0 (bits_init (\<lambda>_. 0)) globals_init = Some (fr, g')"
    using scan_returns [OF pulse_train_recurs] by blast
  obtain bs where nb: "next_bits 42 (pulse_train ?ws) globals_init = Some (bs, g')"
    and val: "\<forall>j<5. unat (bits fr j)
          = 128 * unat (bs ! (8 * j)) + 64 * unat (bs ! (8 * j + 1))
            + 32 * unat (bs ! (8 * j + 2)) + 16 * unat (bs ! (8 * j + 3))
            + 8 * unat (bs ! (8 * j + 4)) + 4 * unat (bs ! (8 * j + 5))
            + 2 * unat (bs ! (8 * j + 6)) + unat (bs ! (8 * j + 7))"
    using scan_big_endian [OF sc] by blast
  have f: "follows (pulse_train ?ws) (polls globals_init) ?ws"
    by (simp add: follows_def globals_init_def)
  have w: "\<forall>w\<in>set ?ws. 0 < w \<and> w \<le> 256" by (simp add: frame_match_def)
  have len: "length ?ws + 2 = 42" by (simp add: frame_match_def)
  obtain g'' where "next_bits (length ?ws + 2) (pulse_train ?ws) globals_init
      = Some (map (\<lambda>w. classify (of_nat (w - 1))) ?ws @ replicate 2 0, g'')"
    using next_bits_train [OF f w, of 2] by blast
  then have "bs = map (\<lambda>w. classify (of_nat (w - 1))) ?ws @ replicate 2 0"
    using nb unfolding len by simp
  then have bs: "bs = [0, 0, 0, 0, 0, 0, 0, 1,  1, 0, 0, 1, 0, 0, 0, 0,  0, 0, 0, 0, 0, 0, 0, 0,
      1, 1, 0, 0, 1, 0, 0, 0,  0, 1, 0, 1, 1, 0, 0, 1,  0, 0]"
    by (simp add: frame_match_def classify_def LONG_PULSE_LENGTH_def pair_zero)
  have "unat (bits fr 1)
          = 128 * unat (bs ! (8 * 1)) + 64 * unat (bs ! (8 * 1 + 1))
            + 32 * unat (bs ! (8 * 1 + 2)) + 16 * unat (bs ! (8 * 1 + 3))
            + 8 * unat (bs ! (8 * 1 + 4)) + 4 * unat (bs ! (8 * 1 + 5))
            + 2 * unat (bs ! (8 * 1 + 6)) + unat (bs ! (8 * 1 + 7))"
    using val by (simp del: One_nat_def)
  then have v: "unat (bits fr 1) = 0x90" unfolding bs by simp
  have t: "take 8 (drop 8 bs) = [1, 0, 0, 1, 0, 0, 0, 0]" unfolding bs by simp
  show ?thesis
    by (rule exI [where x = fr], rule exI [where x = g'], rule exI [where x = bs])
      (use sc nb t v in simp)
qed


theorem read_therm_fields_witness:
  "\<exists>r fr g'. read_therm (pulse_train frame_match) (\<lambda>_. 0) globals_init = Some (r, fr, g')
     \<and> map (bits fr) [0, 1, 2, 3, 4] = [0x01, 0x90, 0x00, 0xC8, 0x59]
     \<and> unat (humidity r) = 400 \<and> unat (temperature r) = 200"
proof -
  obtain r fr g' where rt: "read_therm (pulse_train frame_match) (\<lambda>_. 0) globals_init = Some (r, fr, g')"
    and by8: "map (bits fr) [0, 1, 2, 3, 4] = [0x01, 0x90, 0x00, 0xC8, 0x59]"
    using frame_match_bytes [of "\<lambda>_. 0"] by auto
  have "unat (humidity r) = 256 * unat (bits fr 0) + unat (bits fr 1)
      \<and> unat (temperature r) = 256 * unat (bits fr 2) + unat (bits fr 3)"
    using read_therm_fields [OF rt] by blast
  then have res: "unat (humidity r) = 400 \<and> unat (temperature r) = 200"
    using by8 by simp
  show ?thesis
    by (rule exI [where x = r], rule exI [where x = fr], rule exI [where x = g'])
      (use rt by8 res in simp)
qed

subsection \<open>The checksum\<close>

lemma checksum_fill_result:
  "checksum (fill_result b)
     = (if unat (b 0) + unat (b 1) + unat (b 2) + unat (b 3) = unat (b 4) then 1 else 0)"
proof -
  have "(uint (b 0) + uint (b 1) + uint (b 2) + uint (b 3) = uint (b 4))
      = (unat (b 0) + unat (b 1) + unat (b 2) + unat (b 3) = unat (b 4))"
    by (simp only: uint_nat of_nat_add [symmetric] of_nat_eq_iff)
  then show ?thesis by (simp add: fill_result_def)
qed

text \<open>
  C2. The specification compares the sum modulo 256 with the checksum byte. Line 134 adds
  the four bytes as \<^verbatim>\<open>int\<close> and compares the sum, not reduced, with \<^verbatim>\<open>bits[4]\<close>, so
  the flag is 1 exactly when the sum itself is the checksum byte. On the transaction
  \<open>frame_match\<close> the bytes are 0x01, 0x90, 0x00, 0xC8, 0x59; their sum 0x159 is 0x59
  modulo 256, and the flag is 0.
\<close>

theorem checksum_not_reduced:
  "checksum (fill_result b)
     = (if unat (b 0) + unat (b 1) + unat (b 2) + unat (b 3) = unat (b 4) then 1 else 0)
   \<and> (\<exists>r fr g'. read_therm (pulse_train frame_match) (\<lambda>_. 0) globals_init = Some (r, fr, g')
         \<and> map (bits fr) [0, 1, 2, 3, 4] = [0x01, 0x90, 0x00, 0xC8, 0x59]
         \<and> (0x01 + 0x90 + 0x00 + 0xC8) mod 256 = (0x59 :: nat)
         \<and> checksum r = 0)"
proof -
  obtain r fr g' where rt: "read_therm (pulse_train frame_match) (\<lambda>_. 0) globals_init = Some (r, fr, g')"
    and r: "r = fill_result (bits fr)"
    and by8: "map (bits fr) [0, 1, 2, 3, 4] = [0x01, 0x90, 0x00, 0xC8, 0x59]"
    using frame_match_bytes [of "\<lambda>_. 0"] by auto
  have zero: "checksum r = 0" unfolding r checksum_fill_result using by8 by simp
  have "\<exists>r fr g'. read_therm (pulse_train frame_match) (\<lambda>_. 0) globals_init = Some (r, fr, g')
         \<and> map (bits fr) [0, 1, 2, 3, 4] = [0x01, 0x90, 0x00, 0xC8, 0x59]
         \<and> (0x01 + 0x90 + 0x00 + 0xC8) mod 256 = (0x59 :: nat)
         \<and> checksum r = 0"
    by (rule exI [where x = r], rule exI [where x = fr], rule exI [where x = g'])
      (use rt by8 zero in simp)
  with checksum_fill_result [of b] show ?thesis by (rule conjI)
qed

text \<open>
  C7. \<^verbatim>\<open>read_therm\<close> fails to return only when one of its 44 samples does not return;
  the checksum has no part in it. A transaction whose checksum comparison fails
  returns its result like any other, with the humidity and temperature fields filled
  from the buckets and the flag 0.
\<close>

theorem checksum_mismatch_is_data:
  "(read_therm ln stack g = None) = (next_bits 44 ln g = None)
   \<and> (\<forall>r fr g'. read_therm ln stack g = Some (r, fr, g')
         \<and> uint (bits fr 0) + uint (bits fr 1) + uint (bits fr 2) + uint (bits fr 3)
             \<noteq> uint (bits fr 4)
         \<longrightarrow> checksum r = 0
           \<and> humidity r = push_bit 8 (ucast (bits fr 0)) OR ucast (bits fr 1)
           \<and> temperature r = push_bit 8 (ucast (bits fr 2)) OR ucast (bits fr 3))"
proof -
  have a: "(read_therm ln stack g = None) = (next_bits 44 ln g = None)"
    by (cases "next_bits 44 ln g") (auto simp: read_therm_next_bits)
  have b: "\<And>r fr g'. read_therm ln stack g = Some (r, fr, g') \<Longrightarrow> r = fill_result (bits fr)"
    using read_therm_effect by blast
  show ?thesis using a b by (auto simp: fill_result_def)
qed

theorem checksum_mismatch_is_data_witness:
  "\<exists>r fr g'. read_therm (pulse_train frame_mismatch) (\<lambda>_. 0) globals_init = Some (r, fr, g')
     \<and> map (bits fr) [0, 1, 2, 3, 4] = [0x02, 0x8C, 0x01, 0x01, 0x8F]
     \<and> checksum r = 0 \<and> humidity r = 0x028C \<and> temperature r = 0x0101"
proof -
  obtain r fr g' where rt: "read_therm (pulse_train frame_mismatch) (\<lambda>_. 0) globals_init = Some (r, fr, g')"
    and by8: "map (bits fr) [0, 1, 2, 3, 4] = [0x02, 0x8C, 0x01, 0x01, 0x8F]"
    using frame_mismatch_bytes [of "\<lambda>_. 0"] by auto
  have ne: "uint (bits fr 0) + uint (bits fr 1) + uint (bits fr 2) + uint (bits fr 3)
      \<noteq> uint (bits fr 4)"
    using by8 by simp
  have "checksum r = 0
      \<and> humidity r = push_bit 8 (ucast (bits fr 0)) OR ucast (bits fr 1)
      \<and> temperature r = push_bit 8 (ucast (bits fr 2)) OR ucast (bits fr 3)"
    using checksum_mismatch_is_data [of "pulse_train frame_mismatch" "\<lambda>_. 0" globals_init] rt ne
    by blast
  then have res: "checksum r = 0 \<and> humidity r = 0x028C \<and> temperature r = 0x0101"
    using by8 by simp
  show ?thesis
    by (rule exI [where x = r], rule exI [where x = fr], rule exI [where x = g'])
      (use rt by8 res in simp)
qed


theorem read_therm_repeatable_witness:
  "map_option fst (read_therm (pulse_train frame_match) (\<lambda>_. 0) globals_init)
     = map_option fst (read_therm (pulse_train frame_match) (\<lambda>_. 255)
         (globals_init\<lparr>try_count := 44\<rparr>))
   \<and> (\<exists>r. map_option fst (read_therm (pulse_train frame_match) (\<lambda>_. 0) globals_init) = Some r
         \<and> humidity r = 400 \<and> temperature r = 200 \<and> checksum r = 0)"
proof -
  have "\<forall>k. pulse_train frame_match (polls globals_init + k)
      = pulse_train frame_match (polls (globals_init\<lparr>try_count := 44\<rparr>) + k)"
    by simp
  then have a: "map_option fst (read_therm (pulse_train frame_match) (\<lambda>_. 0) globals_init)
     = map_option fst (read_therm (pulse_train frame_match) (\<lambda>_. 255)
         (globals_init\<lparr>try_count := 44\<rparr>))"
    by (rule read_therm_repeatable)
  obtain r fr g' where rt: "read_therm (pulse_train frame_match) (\<lambda>_. 0) globals_init = Some (r, fr, g')"
    and r: "r = fill_result (bits fr)"
    and by8: "map (bits fr) [0, 1, 2, 3, 4] = [0x01, 0x90, 0x00, 0xC8, 0x59]"
    using frame_match_bytes [of "\<lambda>_. 0"] by auto
  have res: "humidity r = 400 \<and> temperature r = 200 \<and> checksum r = 0"
    unfolding r using by8 by (simp add: fill_result_def)
  have fst: "map_option fst (read_therm (pulse_train frame_match) (\<lambda>_. 0) globals_init)
      = Some r"
    using rt by simp
  have "\<exists>r. map_option fst (read_therm (pulse_train frame_match) (\<lambda>_. 0) globals_init)
        = Some r \<and> humidity r = 400 \<and> temperature r = 200 \<and> checksum r = 0"
    by (rule exI [where x = r]) (use fst res in simp)
  with a show ?thesis by (rule conjI)
qed



subsection \<open>The debug buffer under a layout\<close>

text \<open>
  \<open>next_bit\<close>, \<open>scan\<close> and \<open>read_therm\<close> are the functions under the layout \<open>None\<close>.
\<close>

lemma record_sample_polls [simp]: "polls (record_sample lay c g) = polls g"
  by (simp add: record_sample_def Let_def)

lemma next_bit_at_None: "next_bit_at None ln g = next_bit ln g"
  by (cases "sample_pulse ln (polls g)") (auto simp: next_bit_at_def next_bit_def record_sample_def Let_def)

lemma scan_at_None: "c + m = BIT_TRANSITIONS \<Longrightarrow> scan_at None ln c fr g = scan ln c fr g"
proof (induction m arbitrary: c fr g)
  case 0
  then show ?case by (subst scan.simps, subst scan_at.simps) simp
next
  case (Suc m)
  then have lt: "c < BIT_TRANSITIONS" and nxt: "Suc c + m = BIT_TRANSITIONS" by simp_all
  show ?case
  proof (cases "next_bit ln g")
    case None
    then show ?thesis using lt
      by (subst scan.simps, subst scan_at.simps) (simp add: next_bit_at_None)
  next
    case (Some x)
    obtain b g1 where x: "x = (b, g1)" by (cases x)
    have "scan_at None ln c fr g = scan_at None ln (Suc c) (put_bit c b fr) g1"
      using lt Some x by (subst scan_at.simps) (simp add: next_bit_at_None)
    also have "\<dots> = scan ln (Suc c) (put_bit c b fr) g1" by (rule Suc.IH [OF nxt])
    also have "\<dots> = scan ln c fr g"
      using lt Some x by (subst (2) scan.simps) simp
    finally show ?thesis .
  qed
qed

lemma read_therm_at_None: "read_therm_at None ln stack g = read_therm ln stack g"
proof -
  have "\<And>g2. scan_at None ln 0 (bits_init stack) g2 = scan ln 0 (bits_init stack) g2"
    by (rule scan_at_None [of 0 BIT_TRANSITIONS]) simp
  then show ?thesis by (simp add: read_therm_at_def read_therm_def next_bit_at_None)
qed























end
